theory Spec2Isabelle
  imports Main
begin

section \<open>JavaScript values the handlers rely on\<close>

text \<open>
  The socket handlers of \<^verbatim>\<open>server.js\<close> (lines 105 to 224) are embedded as pure functions
  on an explicit server state. Payload fields \<^verbatim>\<open>username\<close>, \<^verbatim>\<open>room\<close> and \<^verbatim>\<open>message\<close> are
  strings; characters are code units below 256. A socket id is the opaque value
  \<^verbatim>\<open>socket.id\<close>; socket.io makes it a non-empty string, hence a truthy value, and the
  handlers only store it, so a natural number stands for it.
\<close>

type_synonym socket_id = nat

text \<open>
  \<^verbatim>\<open>socket.username\<close> and \<^verbatim>\<open>socket.currentRoom\<close> are \<^verbatim>\<open>undefined\<close> until a join sets them.
  In a condition \<^verbatim>\<open>undefined\<close> and the empty string count as false, any other string as
  true.
\<close>

definition truthy :: "string option \<Rightarrow> bool" where
  "truthy v = (case v of None \<Rightarrow> False | Some s \<Rightarrow> s \<noteq> [])"

text \<open>
  \<^verbatim>\<open>String.prototype.trim\<close> strips white space and line terminators from both ends. Of
  those, the code units below 256 are TAB, LF, VT, FF, CR, SPACE and NBSP.
\<close>

definition js_whitespace :: "char \<Rightarrow> bool" where
  "js_whitespace c = (of_char c \<in> set [9, 10, 11, 12, 13, 32, 160 :: nat])"

definition trim :: "string \<Rightarrow> string" where
  "trim s = rev (dropWhile js_whitespace (rev (dropWhile js_whitespace s)))"

subsection \<open>Plain objects as ordered dictionaries\<close>

text \<open>
  \<^verbatim>\<open>activeUsers[room]\<close> is a plain object used as a dictionary from usernames to socket
  ids. Its own properties are kept as an association list in creation order:
  assigning to an existing key keeps the key's place, assigning to a new key appends it,
  \<^verbatim>\<open>delete\<close> removes it.
\<close>

type_synonym 'v obj = "(string \<times> 'v) list"

fun assign :: "string \<Rightarrow> 'v \<Rightarrow> 'v obj \<Rightarrow> 'v obj" where
  "assign k v [] = [(k, v)]"
| "assign k v ((k', v') # ps) = (if k' = k then (k, v) # ps else (k', v') # assign k v ps)"

fun delete_prop :: "string \<Rightarrow> 'v obj \<Rightarrow> 'v obj" where
  "delete_prop k [] = []"
| "delete_prop k ((k', v') # ps) = (if k' = k then delete_prop k ps else (k', v') # delete_prop k ps)"

definition get_prop :: "'v obj \<Rightarrow> string \<Rightarrow> 'v option" where
  "get_prop ob k = map_of ob k"

text \<open>
  \<^verbatim>\<open>Object.keys\<close> lists the keys that are array indices first, in ascending numeric
  order, then the other keys in creation order. An array index is the canonical decimal
  form of an integer below \<open>2^32 - 1\<close>.
\<close>

definition is_digit :: "char \<Rightarrow> bool" where
  "is_digit c = (48 \<le> (of_char c :: nat) \<and> (of_char c :: nat) \<le> 57)"

definition decimal :: "string \<Rightarrow> nat" where
  "decimal s = foldl (\<lambda>n c. 10 * n + (of_char c - 48)) 0 s"

definition array_index :: "string \<Rightarrow> nat option" where
  "array_index s =
     (if s \<noteq> [] \<and> list_all is_digit s \<and> (s = ''0'' \<or> hd s \<noteq> CHR ''0'')
         \<and> decimal s < 4294967295
      then Some (decimal s) else None)"

definition index_value :: "string \<Rightarrow> nat" where
  "index_value k = (case array_index k of None \<Rightarrow> 0 | Some n \<Rightarrow> n)"

definition object_keys :: "'v obj \<Rightarrow> string list" where
  "object_keys ob =
     sort_key index_value (filter (\<lambda>k. array_index k \<noteq> None) (map fst ob))
       @ filter (\<lambda>k. array_index k = None) (map fst ob)"

text \<open>
  The embedding reads a property of a plain object as an own property. A key that
  \<^verbatim>\<open>Object.prototype\<close> already answers (\<^verbatim>\<open>constructor\<close>, \<^verbatim>\<open>__proto__\<close>, ...) would be found
  on the prototype chain instead, and the handlers then take other branches (an
  assignment to \<^verbatim>\<open>__proto__\<close> creates no key, for one). Such names are outside the
  embedding: a theorem whose statement depends on what a lookup in \<^verbatim>\<open>activeUsers\<close> finds
  assumes \<open>plain_key\<close> of the names involved.
\<close>

definition inherited_keys :: "string list" where
  "inherited_keys =
     [''__proto__'', ''constructor'', ''hasOwnProperty'', ''isPrototypeOf'',
      ''propertyIsEnumerable'', ''toLocaleString'', ''toString'', ''valueOf'',
      ''__defineGetter__'', ''__defineSetter__'', ''__lookupGetter__'', ''__lookupSetter__'']"

definition plain_key :: "string \<Rightarrow> bool" where
  "plain_key k = (k \<notin> set inherited_keys)"

section \<open>Server state\<close>

text \<open>
  A socket carries the two properties the handlers attach to it and the socket.io rooms
  it has joined through \<^verbatim>\<open>socket.join\<close>.
\<close>

record socket =
  username :: "string option"
  currentRoom :: "string option"
  rooms :: "string set"

text \<open>
  The persisted documents of \<^verbatim>\<open>UserSchema\<close> and \<^verbatim>\<open>MessageSchema\<close>. The user collection is
  keyed by its unique \<^verbatim>\<open>username\<close>; \<^verbatim>\<open>createdAt\<close> is never read by a handler and is left
  out. Timestamps are milliseconds.
\<close>

record user_doc =
  socketId :: "socket_id option"
  isOnline :: bool

record message_doc =
  m_room :: string
  m_username :: string
  m_message :: string
  m_timestamp :: nat

record server =
  sockets :: "socket_id \<rightharpoonup> socket"
  activeUsers :: "string \<rightharpoonup> socket_id obj"
  User :: "string \<rightharpoonup> user_doc"
  Message :: "message_doc list"

text \<open>At start no client is connected and \<^verbatim>\<open>activeUsers\<close> is \<^verbatim>\<open>{}\<close>; the database holds
  whatever earlier runs left.\<close>

definition boot :: "(string \<rightharpoonup> user_doc) \<Rightarrow> message_doc list \<Rightarrow> server" where
  "boot us ms = \<lparr>sockets = Map.empty, activeUsers = Map.empty, User = us, Message = ms\<rparr>"

subsection \<open>Outbound events\<close>

text \<open>
  \<^verbatim>\<open>socket.emit\<close> addresses the socket itself, \<^verbatim>\<open>io.to(room).emit\<close> every socket in the
  room, \<^verbatim>\<open>socket.to(room).emit\<close> every socket in the room but the sender.
\<close>

datatype target = ToSocket socket_id | ToRoom string | ToRoomExcept string socket_id

datatype payload =
    ChatHistory "message_doc list"
  | OnlineUsers "string list"
  | UserJoined string
  | MessageEv string string nat
  | UserTyping string bool
  | UserLeft string
  | ErrorEv string

type_synonym emission = "target \<times> payload"

subsection \<open>Persistence calls\<close>

text \<open>
  Whether a database call is rejected is not decided by the server; each inbound event
  carries the outcome of the calls its handler awaits. A rejected call writes nothing.
\<close>

definition upsert_online :: "string \<Rightarrow> socket_id \<Rightarrow> (string \<rightharpoonup> user_doc) \<Rightarrow> (string \<rightharpoonup> user_doc)" where
  "upsert_online u sid us = us(u \<mapsto> \<lparr>socketId = Some sid, isOnline = True\<rparr>)"

definition set_offline :: "string \<Rightarrow> (string \<rightharpoonup> user_doc) \<Rightarrow> (string \<rightharpoonup> user_doc)" where
  "set_offline u us =
     (case us u of None \<Rightarrow> us | Some d \<Rightarrow> us(u \<mapsto> \<lparr>socketId = None, isOnline = False\<rparr>))"

definition find_messages :: "string \<Rightarrow> message_doc list \<Rightarrow> message_doc list" where
  "find_messages r ms = sort_key m_timestamp (filter (\<lambda>m. m_room m = r) ms)"

text \<open>
  \<^verbatim>\<open>newMessage.save()\<close> validates the document first: the three string paths are
  \<^verbatim>\<open>required\<close>, which an empty string does not satisfy.
\<close>

definition required_ok :: "message_doc \<Rightarrow> bool" where
  "required_ok m = (m_room m \<noteq> [] \<and> m_username m \<noteq> [] \<and> m_message m \<noteq> [])"

definition save :: "bool \<Rightarrow> message_doc \<Rightarrow> message_doc list \<Rightarrow> message_doc list option" where
  "save db_ok m ms = (if db_ok \<and> required_ok m then Some (ms @ [m]) else None)"

section \<open>The handlers\<close>

definition snapshot :: "server \<Rightarrow> string \<Rightarrow> string list" where
  \<comment> \<open>\<^verbatim>\<open>Object.keys(activeUsers[room] || {})\<close>\<close>
  "snapshot s r = object_keys (case activeUsers s r of None \<Rightarrow> [] | Some ob \<Rightarrow> ob)"

definition remove_user :: "string \<Rightarrow> string \<Rightarrow> (string \<rightharpoonup> socket_id obj) \<Rightarrow> (string \<rightharpoonup> socket_id obj)" where
  \<comment> \<open>the guarded \<^verbatim>\<open>delete\<close> shared by the disconnect and leaveRoom handlers\<close>
  "remove_user r u au =
     (case au r of
        None \<Rightarrow> au
      | Some ob \<Rightarrow>
          (case get_prop ob u of
             None \<Rightarrow> au
           | Some sid \<Rightarrow>
               (if length (object_keys (delete_prop u ob)) = 0 then au(r := None)
                else au(r \<mapsto> delete_prop u ob))))"

definition on_joinRoom ::
  "socket_id \<Rightarrow> socket \<Rightarrow> string \<Rightarrow> string \<Rightarrow> bool \<Rightarrow> bool \<Rightarrow> server \<Rightarrow> server \<times> emission list" where
  "on_joinRoom sid sock u r upsert_ok find_ok s =
     (if \<not> upsert_ok then (s, [(ToSocket sid, ErrorEv ''Failed to join room'')])
      else
        let s1 = s\<lparr>User := upsert_online u sid (User s),
                   sockets := (sockets s)(sid \<mapsto>
                      sock\<lparr>rooms := insert r (rooms sock), username := Some u, currentRoom := Some r\<rparr>),
                   activeUsers := (activeUsers s)(r \<mapsto>
                      assign u sid (case activeUsers s r of None \<Rightarrow> [] | Some ob \<Rightarrow> ob))\<rparr>
        in if \<not> find_ok then (s1, [(ToSocket sid, ErrorEv ''Failed to join room'')])
           else (s1, [(ToSocket sid, ChatHistory (find_messages r (Message s1))),
                      (ToRoom r, OnlineUsers (snapshot s1 r)),
                      (ToRoomExcept r sid, UserJoined (u @ '' joined the room''))]))"

definition on_chatMessage ::
  "socket_id \<Rightarrow> string \<Rightarrow> string \<Rightarrow> string \<Rightarrow> nat \<Rightarrow> bool \<Rightarrow> server \<Rightarrow> server \<times> emission list" where
  "on_chatMessage sid r u msg now save_ok s =
     (if trim msg = [] then (s, [])
      else
        (case save save_ok \<lparr>m_room = r, m_username = u, m_message = msg, m_timestamp = now\<rparr> (Message s) of
           None \<Rightarrow> (s, [(ToSocket sid, ErrorEv ''Failed to send message'')])
         | Some ms \<Rightarrow> (s\<lparr>Message := ms\<rparr>, [(ToRoom r, MessageEv u msg now)])))"

text \<open>
  The typing handler is synchronous and has no \<^verbatim>\<open>try\<close>. Its first line destructures the
  payload, which throws a \<^verbatim>\<open>TypeError\<close> when the event came without one (\<^verbatim>\<open>data\<close> is
  \<^verbatim>\<open>undefined\<close> or \<^verbatim>\<open>null\<close>); nothing catches it. The payload is therefore optional here
  and the handler returns either the error or its result.
\<close>

datatype js_error = TypeError

type_synonym typing_data = "string \<times> string \<times> bool"

definition on_typing ::
  "socket_id \<Rightarrow> typing_data option \<Rightarrow> server \<Rightarrow> js_error + server \<times> emission list" where
  "on_typing sid data s =
     (case data of
        None \<Rightarrow> Inl TypeError
      | Some (r, u, isTyping) \<Rightarrow> Inr (s, [(ToRoomExcept r sid, UserTyping u isTyping)]))"

definition on_disconnect :: "socket_id \<Rightarrow> socket \<Rightarrow> bool \<Rightarrow> server \<Rightarrow> server \<times> emission list" where
  "on_disconnect sid sock update_ok s =
     (if truthy (username sock) \<and> truthy (currentRoom sock) then
        (case (username sock, currentRoom sock) of
           (Some u, Some r) \<Rightarrow>
             (if \<not> update_ok then (s, [])
              else
                let s1 = s\<lparr>User := set_offline u (User s),
                           activeUsers := remove_user r u (activeUsers s)\<rparr>
                in (s1, [(ToRoom r, OnlineUsers (snapshot s1 r)),
                         (ToRoomExcept r sid, UserLeft (u @ '' left the room''))]))
         | _ \<Rightarrow> (s, []))
      else (s, []))"

definition on_leaveRoom ::
  "socket_id \<Rightarrow> socket \<Rightarrow> string \<Rightarrow> string \<Rightarrow> server \<Rightarrow> server \<times> emission list" where
  "on_leaveRoom sid sock u r s =
     (let s1 = s\<lparr>sockets := (sockets s)(sid \<mapsto> sock\<lparr>rooms := rooms sock - {r}\<rparr>),
                 activeUsers := remove_user r u (activeUsers s)\<rparr>
      in (s1, [(ToRoom r, OnlineUsers (snapshot s1 r)),
               (ToRoomExcept r sid, UserLeft (u @ '' left the room''))]))"

subsection \<open>Inbound events\<close>

text \<open>
  \<open>Connection\<close> is the callback of \<^verbatim>\<open>io.on('connection')\<close>, which creates a socket with no
  username and no room. The other events carry their payload, its fields in the order of
  the handler's destructuring; the trailing booleans are the outcomes of the awaited
  database calls, and \<open>ChatMessage\<close> carries the value of \<^verbatim>\<open>new Date()\<close>. An event for a
  socket that is not open reaches no handler. After the disconnect handler the socket is
  gone. A \<open>Typing\<close> event has its payload, so in \<open>step\<close> the typing handler does not
  throw.

  \<open>step\<close> runs the handler of one event from its first line to its last with no other
  handler in between, and \<open>run\<close> is the schedule in which every handler has finished
  before the next event is handled. The handlers of joinRoom, chatMessage and disconnect
  are suspended at their \<^verbatim>\<open>await\<close>s, where the handlers of other events can run; the
  next section gives the execution with these suspensions, of which \<open>run\<close> is the
  uninterrupted case.
\<close>

datatype event =
    Connection socket_id
  | JoinRoom socket_id string string bool bool
  | ChatMessage socket_id string string string nat bool
  | Typing socket_id string string bool
  | Disconnect socket_id bool
  | LeaveRoom socket_id string string

fun step :: "event \<Rightarrow> server \<Rightarrow> server \<times> emission list" where
  "step (Connection sid) s =
     (case sockets s sid of
        None \<Rightarrow> (s\<lparr>sockets := (sockets s)(sid \<mapsto> \<lparr>username = None, currentRoom = None, rooms = {}\<rparr>)\<rparr>, [])
      | Some sock \<Rightarrow> (s, []))"
| "step (JoinRoom sid u r upsert_ok find_ok) s =
     (case sockets s sid of
        None \<Rightarrow> (s, [])
      | Some sock \<Rightarrow> on_joinRoom sid sock u r upsert_ok find_ok s)"
| "step (ChatMessage sid r u msg now save_ok) s =
     (case sockets s sid of
        None \<Rightarrow> (s, [])
      | Some sock \<Rightarrow> on_chatMessage sid r u msg now save_ok s)"
| "step (Typing sid r u isTyping) s =
     (case sockets s sid of
        None \<Rightarrow> (s, [])
      | Some sock \<Rightarrow>
          (case on_typing sid (Some (r, u, isTyping)) s of
             Inl err \<Rightarrow> (s, [])
           | Inr res \<Rightarrow> res))"
| "step (Disconnect sid update_ok) s =
     (case sockets s sid of
        None \<Rightarrow> (s, [])
      | Some sock \<Rightarrow>
          (case on_disconnect sid sock update_ok s of
             (s1, out) \<Rightarrow> (s1\<lparr>sockets := (sockets s1)(sid := None)\<rparr>, out)))"
| "step (LeaveRoom sid u r) s =
     (case sockets s sid of
        None \<Rightarrow> (s, [])
      | Some sock \<Rightarrow> on_leaveRoom sid sock u r s)"

fun run :: "event list \<Rightarrow> server \<Rightarrow> server" where
  "run [] s = s"
| "run (e # es) s = run es (fst (step e s))"

section \<open>Handlers suspended at an await\<close>

text \<open>
  An \<^verbatim>\<open>async\<close> handler runs up to its first \<^verbatim>\<open>await\<close> when its event arrives, and goes on
  from there when the awaited database call settles; between the two, other events arrive
  and other suspended handlers go on. A task is a suspended handler: what it waits for,
  the values its closure holds, and the outcome the call will have.
  \<^item> \<open>AwaitUpsert\<close>: joinRoom at line 113, before it touches the socket and \<^verbatim>\<open>activeUsers\<close>;
  \<^item> \<open>AwaitFind\<close>: joinRoom at line 128, after it has done so and before its emits;
  \<^item> \<open>AwaitSave\<close>: chatMessage at line 155;
  \<^item> \<open>AwaitUpdate\<close>: disconnect at line 182, after its guard and before its cleanup;
    it holds the username that the query was built from.
\<close>

datatype task =
    AwaitUpsert socket_id string string bool bool
  | AwaitFind socket_id string string bool
  | AwaitSave socket_id string string string nat bool
  | AwaitUpdate socket_id string bool

text \<open>
  A suspended handler keeps its socket object, also after the connection has closed.
  Socket objects are told apart by their ids, which socket.io never gives twice. The state
  of the process is the server state, the socket objects of closed connections (with no
  socket.io room left, as socket.io leaves all rooms on closing), and the suspended
  handlers in the order they were suspended.
\<close>

record node =
  core :: server
  closed_sockets :: "socket_id \<rightharpoonup> socket"
  pending :: "task list"

definition start :: "(string \<rightharpoonup> user_doc) \<Rightarrow> message_doc list \<Rightarrow> node" where
  "start us ms = \<lparr>core = boot us ms, closed_sockets = Map.empty, pending = []\<rparr>"

definition socket_of :: "node \<Rightarrow> socket_id \<Rightarrow> socket option" where
  "socket_of n sid =
     (case sockets (core n) sid of Some sock \<Rightarrow> Some sock | None \<Rightarrow> closed_sockets n sid)"

definition put_socket :: "socket_id \<Rightarrow> socket \<Rightarrow> node \<Rightarrow> node" where
  "put_socket sid sock n =
     (case sockets (core n) sid of
        Some old \<Rightarrow> n\<lparr>core := (core n)\<lparr>sockets := (sockets (core n))(sid \<mapsto> sock)\<rparr>\<rparr>
      | None \<Rightarrow> n\<lparr>closed_sockets := (closed_sockets n)(sid \<mapsto> sock)\<rparr>)"

text \<open>
  The arrival of an event. The handlers of connection, typing and leaveRoom have no
  \<^verbatim>\<open>await\<close> and run to their end. joinRoom issues the upsert and is suspended.
  chatMessage returns on a blank text and otherwise issues the save and is suspended.
  On a disconnect the socket leaves the open sockets; the handler checks its guard, and
  if it holds issues the update and is suspended.
\<close>

fun arrive :: "event \<Rightarrow> node \<Rightarrow> node \<times> emission list" where
  "arrive (JoinRoom sid u r upsert_ok find_ok) n =
     (case sockets (core n) sid of
        None \<Rightarrow> (n, [])
      | Some sock \<Rightarrow> (n\<lparr>pending := pending n @ [AwaitUpsert sid u r upsert_ok find_ok]\<rparr>, []))"
| "arrive (ChatMessage sid r u msg now save_ok) n =
     (case sockets (core n) sid of
        None \<Rightarrow> (n, [])
      | Some sock \<Rightarrow>
          (if trim msg = [] then (n, [])
           else (n\<lparr>pending := pending n @ [AwaitSave sid r u msg now save_ok]\<rparr>, [])))"
| "arrive (Disconnect sid update_ok) n =
     (case sockets (core n) sid of
        None \<Rightarrow> (n, [])
      | Some sock \<Rightarrow>
          (let n1 = n\<lparr>core := (core n)\<lparr>sockets := (sockets (core n))(sid := None)\<rparr>,
                      closed_sockets := (closed_sockets n)(sid \<mapsto> sock\<lparr>rooms := {}\<rparr>)\<rparr>
           in if truthy (username sock) \<and> truthy (currentRoom sock) then
                (case username sock of
                   Some u \<Rightarrow> (n1\<lparr>pending := pending n1 @ [AwaitUpdate sid u update_ok]\<rparr>, [])
                 | None \<Rightarrow> (n1, []))
              else (n1, [])))"
| "arrive e n = (case step e (core n) of (s1, out) \<Rightarrow> (n\<lparr>core := s1\<rparr>, out))"

text \<open>
  A suspended handler goes on when its call settles. A rejected call takes the handler to
  its \<^verbatim>\<open>catch\<close>. After the upsert, joinRoom binds its socket object, open or closed, enters
  the username in \<^verbatim>\<open>activeUsers\<close>, issues the history query and is suspended again; after
  the query it emits, with the history and \<^verbatim>\<open>activeUsers\<close> as they are then. After the
  update, disconnect reads \<^verbatim>\<open>socket.username\<close> and \<^verbatim>\<open>socket.currentRoom\<close> as they are then,
  removes the entry and emits.
\<close>

fun resume :: "task \<Rightarrow> node \<Rightarrow> node \<times> emission list" where
  "resume (AwaitUpsert sid u r upsert_ok find_ok) n =
     (if \<not> upsert_ok then (n, [(ToSocket sid, ErrorEv ''Failed to join room'')])
      else
        (case socket_of n sid of
           None \<Rightarrow> (n, [])
         | Some sock \<Rightarrow>
             (let n1 = put_socket sid
                         (sock\<lparr>rooms := insert r (rooms sock), username := Some u, currentRoom := Some r\<rparr>) n;
                  n2 = n1\<lparr>core := (core n1)
                         \<lparr>User := upsert_online u sid (User (core n1)),
                          activeUsers := (activeUsers (core n1))(r \<mapsto>
                             assign u sid (case activeUsers (core n1) r of None \<Rightarrow> [] | Some ob \<Rightarrow> ob))\<rparr>\<rparr>
              in (n2\<lparr>pending := pending n2 @ [AwaitFind sid u r find_ok]\<rparr>, []))))"
| "resume (AwaitFind sid u r find_ok) n =
     (if \<not> find_ok then (n, [(ToSocket sid, ErrorEv ''Failed to join room'')])
      else (n, [(ToSocket sid, ChatHistory (find_messages r (Message (core n)))),
                (ToRoom r, OnlineUsers (snapshot (core n) r)),
                (ToRoomExcept r sid, UserJoined (u @ '' joined the room''))]))"
| "resume (AwaitSave sid r u msg now save_ok) n =
     (case save save_ok \<lparr>m_room = r, m_username = u, m_message = msg, m_timestamp = now\<rparr>
             (Message (core n)) of
        None \<Rightarrow> (n, [(ToSocket sid, ErrorEv ''Failed to send message'')])
      | Some ms \<Rightarrow> (n\<lparr>core := (core n)\<lparr>Message := ms\<rparr>\<rparr>, [(ToRoom r, MessageEv u msg now)]))"
| "resume (AwaitUpdate sid u0 update_ok) n =
     (if \<not> update_ok then (n, [])
      else
        (case socket_of n sid of
           None \<Rightarrow> (n, [])
         | Some sock \<Rightarrow>
             (case (username sock, currentRoom sock) of
                (Some u, Some r) \<Rightarrow>
                  (let s1 = (core n)\<lparr>User := set_offline u0 (User (core n)),
                                     activeUsers := remove_user r u (activeUsers (core n))\<rparr>
                   in (n\<lparr>core := s1\<rparr>,
                       [(ToRoom r, OnlineUsers (snapshot s1 r)),
                        (ToRoomExcept r sid, UserLeft (u @ '' left the room''))]))
              | _ \<Rightarrow> (n, []))))"

text \<open>
  What the process does next is either the arrival of an event or the settling of the call
  of one of the suspended handlers, in any order: \<open>Settle k\<close> takes the handler at place
  \<open>k\<close> of the suspended ones (counted from 0) and lets it go on. \<open>exec\<close> runs a schedule and
  collects the emits.
\<close>

datatype action = Arrive event | Settle nat

fun act :: "action \<Rightarrow> node \<Rightarrow> node \<times> emission list" where
  "act (Arrive e) n = arrive e n"
| "act (Settle k) n =
     (if k < length (pending n)
      then resume (pending n ! k) (n\<lparr>pending := take k (pending n) @ drop (Suc k) (pending n)\<rparr>)
      else (n, []))"

fun exec :: "action list \<Rightarrow> node \<Rightarrow> node \<times> emission list" where
  "exec [] n = (n, [])"
| "exec (a # as) n =
     (case act a n of (n1, out1) \<Rightarrow> (case exec as n1 of (n2, out2) \<Rightarrow> (n2, out1 @ out2)))"

text \<open>
  The uninterrupted handling of an event: it arrives and its calls settle at once, before
  anything else happens (no handler awaits more than two calls). A sequential schedule
  handles every event so.
\<close>

definition uninterrupted :: "event \<Rightarrow> action list" where
  "uninterrupted e = [Arrive e, Settle 0, Settle 0]"

definition sequential :: "event list \<Rightarrow> action list" where
  "sequential es = concat (map uninterrupted es)"

section \<open>Vocabulary of the claims\<close>

text \<open>The presence set of a room: the keys of \<^verbatim>\<open>activeUsers[room]\<close>, none when the room has
  no entry.\<close>

definition keys_at :: "(string \<rightharpoonup> socket_id obj) \<Rightarrow> string \<Rightarrow> string set" where
  "keys_at au r = (case au r of None \<Rightarrow> {} | Some ob \<Rightarrow> fst ` set ob)"

text \<open>The usernames of the open sockets whose \<^verbatim>\<open>socket.currentRoom\<close> is the room.\<close>

definition bound_users :: "server \<Rightarrow> string \<Rightarrow> string set" where
  "bound_users s r =
     {u. \<exists>sid sock. sockets s sid = Some sock \<and> username sock = Some u \<and> currentRoom sock = Some r}"

text \<open>
  The bindings of a state: which open socket carries which username and room. They are
  what \<open>bound_users\<close> collects per room.
\<close>

definition bindings :: "server \<Rightarrow> (socket_id \<times> string \<times> string) set" where
  "bindings s =
     {(sid, u, r). \<exists>sock. sockets s sid = Some sock \<and> username sock = Some u \<and> currentRoom sock = Some r}"

text \<open>
  Every object in \<^verbatim>\<open>activeUsers\<close> has each key once. A JavaScript object has this by
  nature; for the association lists it is a property of the operations.
\<close>

definition objs_distinct :: "server \<Rightarrow> bool" where
  "objs_distinct s = (\<forall>r ob. activeUsers s r = Some ob \<longrightarrow> distinct (map fst ob))"

subsection \<open>Orderly runs\<close>

text \<open>
  An event is orderly in a state when
  \<^item> a joinRoom that takes effect (its socket is open and the upsert succeeds) carries a
    non-empty username and room, its socket has no room yet or repeats its current
    username and room, and no other open socket is bound to the same username and room;
  \<^item> a disconnect of a socket that has a room has a successful write;
  \<^item> a leaveRoom names a username that no open socket binds to the room.
  Names are plain keys throughout.
\<close>

fun orderly :: "server \<Rightarrow> event \<Rightarrow> bool" where
  "orderly s (JoinRoom sid u r upsert_ok find_ok) =
     (plain_key u \<and> plain_key r \<and>
      (\<forall>sock. sockets s sid = Some sock \<and> upsert_ok \<longrightarrow>
         u \<noteq> [] \<and> r \<noteq> [] \<and>
         (currentRoom sock = None \<or> (username sock = Some u \<and> currentRoom sock = Some r)) \<and>
         (\<forall>sid' sock'. sid' \<noteq> sid \<and> sockets s sid' = Some sock' \<longrightarrow>
            \<not> (username sock' = Some u \<and> currentRoom sock' = Some r))))"
| "orderly s (Disconnect sid update_ok) =
     (\<forall>sock. sockets s sid = Some sock \<and> currentRoom sock \<noteq> None \<longrightarrow> update_ok)"
| "orderly s (LeaveRoom sid u r) = (plain_key u \<and> plain_key r \<and> u \<notin> bound_users s r)"
| "orderly s e = True"

text \<open>A sequence of events is orderly when each event is orderly in the state that the
  sequential handling of the events before it has reached.\<close>

fun orderly_run :: "server \<Rightarrow> event list \<Rightarrow> bool" where
  "orderly_run s [] = True"
| "orderly_run s (e # es) = (orderly s e \<and> orderly_run (fst (step e s)) es)"

text \<open>The invariant of orderly runs: presence is exactly the bindings, no two sockets share
  a binding, and bound names are non-empty.\<close>

definition presence_exact :: "server \<Rightarrow> bool" where
  "presence_exact s =
     ((\<forall>r. keys_at (activeUsers s) r = {u. \<exists>sid. (sid, u, r) \<in> bindings s})
      \<and> (\<forall>sid sid' u r. (sid, u, r) \<in> bindings s \<and> (sid', u, r) \<in> bindings s \<longrightarrow> sid' = sid)
      \<and> (\<forall>sid u r. (sid, u, r) \<in> bindings s \<longrightarrow> u \<noteq> [] \<and> r \<noteq> []))"

subsection \<open>Exclusive runs\<close>

text \<open>
  An event is exclusive in a state when
  \<^item> a joinRoom that takes effect (its socket is open and the upsert succeeds) carries a
    non-empty username and room, its socket has no room yet or repeats its current
    username and room, and no other open socket carries the username;
  \<^item> a disconnect of a socket that has a room has a successful write.
  A leaveRoom may name any username and room. Names are plain keys throughout.
\<close>

fun exclusive :: "server \<Rightarrow> event \<Rightarrow> bool" where
  "exclusive s (JoinRoom sid u r upsert_ok find_ok) =
     (plain_key u \<and> plain_key r \<and>
      (\<forall>sock. sockets s sid = Some sock \<and> upsert_ok \<longrightarrow>
         u \<noteq> [] \<and> r \<noteq> [] \<and>
         (currentRoom sock = None \<or> (username sock = Some u \<and> currentRoom sock = Some r)) \<and>
         (\<forall>sid' sock'. sid' \<noteq> sid \<and> sockets s sid' = Some sock' \<longrightarrow> username sock' \<noteq> Some u)))"
| "exclusive s (Disconnect sid update_ok) =
     (\<forall>sock. sockets s sid = Some sock \<and> currentRoom sock \<noteq> None \<longrightarrow> update_ok)"
| "exclusive s (LeaveRoom sid u r) = (plain_key u \<and> plain_key r)"
| "exclusive s e = True"

text \<open>A sequence of events is exclusive when each event is exclusive in the state that
  the sequential handling of the events before it has reached.\<close>

fun exclusive_run :: "server \<Rightarrow> event list \<Rightarrow> bool" where
  "exclusive_run s [] = True"
| "exclusive_run s (e # es) = (exclusive s e \<and> exclusive_run (fst (step e s)) es)"

text \<open>The invariant of exclusive runs: every present username is bound to the room by an
  open socket, no two sockets share a username, and bound names are non-empty.\<close>

definition one_room :: "server \<Rightarrow> bool" where
  "one_room s =
     ((\<forall>u r. u \<in> keys_at (activeUsers s) r \<longrightarrow> (\<exists>sid. (sid, u, r) \<in> bindings s))
      \<and> (\<forall>a b u r r'. (a, u, r) \<in> bindings s \<and> (b, u, r') \<in> bindings s \<longrightarrow> b = a)
      \<and> (\<forall>sid u r. (sid, u, r) \<in> bindings s \<longrightarrow> u \<noteq> [] \<and> r \<noteq> []))"

subsection \<open>Concrete runs used as examples\<close>

definition connected :: server where
  "connected = run [Connection 7] (boot Map.empty [])"

definition alice_joined :: server where
  "alice_joined = run [Connection 7, JoinRoom 7 ''alice'' ''general'' True True] (boot Map.empty [])"

definition alice_left :: server where
  "alice_left = run [LeaveRoom 7 ''alice'' ''general''] alice_joined"

definition alice_moved :: server where
  "alice_moved = run [JoinRoom 7 ''alice'' ''random'' True True] alice_joined"

definition alice_twice :: server where
  "alice_twice =
     run [Connection 7, Connection 8,
          JoinRoom 7 ''alice'' ''general'' True True,
          JoinRoom 8 ''alice'' ''general'' True True,
          Disconnect 7 True] (boot Map.empty [])"

definition alice_dropped :: server where
  "alice_dropped = run [Disconnect 7 False] alice_joined"

definition alice_back :: server where
  "alice_back = run [Connection 8, JoinRoom 8 ''alice'' ''random'' True True] alice_dropped"

definition alice_on_two_sockets :: server where
  "alice_on_two_sockets =
     run [Connection 7, Connection 8,
          JoinRoom 7 ''alice'' ''general'' True True,
          JoinRoom 8 ''alice'' ''random'' True True] (boot Map.empty [])"

definition nameless_gone :: server where
  "nameless_gone =
     run [Connection 7, JoinRoom 7 [] ''general'' True True, Disconnect 7 True] (boot Map.empty [])"

definition nameless_back :: server where
  "nameless_back = run [Connection 8, JoinRoom 8 [] ''random'' True True] nameless_gone"

definition both_connected :: server where
  "both_connected = run [Connection 7, Connection 8] (boot Map.empty [])"

definition two_users :: "event list" where
  "two_users =
     [Connection 7, Connection 8,
      JoinRoom 7 ''alice'' ''general'' True True,
      JoinRoom 8 ''bob'' ''general'' True True,
      ChatMessage 8 ''general'' ''bob'' ''hello'' 42 True,
      Disconnect 7 True]"

definition two_rooms :: "event list" where
  "two_rooms =
     [Connection 7, Connection 8,
      JoinRoom 7 ''alice'' ''general'' True True,
      JoinRoom 8 ''bob'' ''random'' True True,
      LeaveRoom 8 ''bob'' ''random'']"

definition late_join :: "action list" where
  "late_join =
     [Arrive (Connection 7), Arrive (JoinRoom 7 ''alice'' ''general'' True True),
      Arrive (Disconnect 7 True), Settle 0, Settle 0]"

definition late_cleanup :: "action list" where
  "late_cleanup =
     [Arrive (Connection 7), Arrive (Connection 8),
      Arrive (JoinRoom 7 ''alice'' ''general'' True True), Settle 0, Settle 0,
      Arrive (Disconnect 7 True), Arrive (JoinRoom 8 ''alice'' ''general'' True True),
      Settle 1, Settle 0, Settle 0]"

definition late_join_then_other_room :: "action list" where
  "late_join_then_other_room =
     late_join @ [Arrive (Connection 8), Arrive (JoinRoom 8 ''alice'' ''random'' True True),
                  Settle 0, Settle 0]"

section \<open>Properties of the object operations\<close>

lemma trim_empty_iff: "trim s = [] \<longleftrightarrow> (\<forall>c\<in>set s. js_whitespace c)"
proof
  assume "trim s = []"
  then have all: "\<forall>x\<in>set (dropWhile js_whitespace s). js_whitespace x"
    by (simp add: trim_def dropWhile_eq_Nil_conv)
  have "dropWhile js_whitespace s = []"
  proof (rule ccontr)
    assume ne: "dropWhile js_whitespace s \<noteq> []"
    then have "\<not> js_whitespace (hd (dropWhile js_whitespace s))"
      by (rule hd_dropWhile)
    moreover have "hd (dropWhile js_whitespace s) \<in> set (dropWhile js_whitespace s)"
      using ne by (rule hd_in_set)
    ultimately show False using all by blast
  qed
  then show "\<forall>c\<in>set s. js_whitespace c"
    by (simp add: dropWhile_eq_Nil_conv)
next
  assume "\<forall>c\<in>set s. js_whitespace c"
  then have "dropWhile js_whitespace s = []"
    by (simp add: dropWhile_eq_Nil_conv)
  then show "trim s = []"
    by (auto simp: trim_def dest: set_dropWhileD)
qed

lemma keys_assign_old: "k \<in> fst ` set ob \<Longrightarrow> map fst (assign k v ob) = map fst ob"
  by (induction ob) force+

lemma keys_assign_new: "k \<notin> fst ` set ob \<Longrightarrow> map fst (assign k v ob) = map fst ob @ [k]"
  by (induction ob) auto

lemma set_keys_assign: "fst ` set (assign k v ob) = insert k (fst ` set ob)"
proof (cases "k \<in> fst ` set ob")
  case True
  then have "map fst (assign k v ob) = map fst ob"
    by (rule keys_assign_old)
  then have "set (map fst (assign k v ob)) = set (map fst ob)"
    by (rule arg_cong)
  then show ?thesis using True by auto
next
  case False
  then have "map fst (assign k v ob) = map fst ob @ [k]"
    by (rule keys_assign_new)
  then have "set (map fst (assign k v ob)) = set (map fst ob @ [k])"
    by (rule arg_cong)
  then show ?thesis by auto
qed

lemma keys_delete_prop: "map fst (delete_prop k ob) = removeAll k (map fst ob)"
  by (induction ob) auto

lemma set_keys_delete_prop: "fst ` set (delete_prop k ob) = fst ` set ob - {k}"
proof -
  have "set (map fst (delete_prop k ob)) = set (map fst ob) - {k}"
    by (simp only: keys_delete_prop set_removeAll)
  then show ?thesis by simp
qed

lemma set_object_keys: "set (object_keys ob) = fst ` set ob"
  by (auto simp: object_keys_def)

lemma distinct_object_keys: "distinct (map fst ob) \<Longrightarrow> distinct (object_keys ob)"
  by (auto simp: object_keys_def)

lemma object_keys_cong: "map fst ob = map fst ob' \<Longrightarrow> object_keys ob = object_keys ob'"
  by (simp add: object_keys_def)

lemma object_keys_Nil_iff: "object_keys ob = [] \<longleftrightarrow> ob = []"
  using set_object_keys [of ob] by (cases ob) auto

lemma get_prop_None_iff: "get_prop ob k = None \<longleftrightarrow> k \<notin> fst ` set ob"
  by (simp add: get_prop_def map_of_eq_None_iff)

lemma set_snapshot: "set (snapshot s r) = keys_at (activeUsers s) r"
  by (simp add: snapshot_def keys_at_def set_object_keys split: option.split)

lemma keys_at_remove_user:
  "keys_at (remove_user r u au) r' = (if r' = r then keys_at au r - {u} else keys_at au r')"
proof (cases "au r")
  case None
  then show ?thesis by (simp add: keys_at_def remove_user_def)
next
  case (Some ob)
  show ?thesis
  proof (cases "get_prop ob u")
    case None
    then have "u \<notin> fst ` set ob" by (simp add: get_prop_None_iff)
    then show ?thesis using Some None by (simp add: keys_at_def remove_user_def)
  next
    case (Some sid)
    have "delete_prop u ob = [] \<Longrightarrow> fst ` set ob - {u} = {}"
      using set_keys_delete_prop [of u ob] by simp
    then show ?thesis using \<open>au r = Some ob\<close> Some
      by (simp add: keys_at_def remove_user_def object_keys_Nil_iff set_keys_delete_prop)
  qed
qed


lemma keys_at_join:
  "keys_at (au(r \<mapsto> assign u sid (case au r of None \<Rightarrow> [] | Some ob \<Rightarrow> ob))) r' =
     (if r' = r then insert u (keys_at au r) else keys_at au r')"
  by (simp add: keys_at_def set_keys_assign split: option.split)

lemmas model_defs =
  boot_def on_joinRoom_def on_chatMessage_def on_typing_def on_disconnect_def on_leaveRoom_def
  snapshot_def remove_user_def get_prop_def truthy_def upsert_online_def set_offline_def
  find_messages_def save_def required_ok_def trim_def js_whitespace_def
  object_keys_def array_index_def index_value_def is_digit_def decimal_def
  plain_key_def inherited_keys_def Let_def

lemmas exec_defs = model_defs start_def socket_of_def put_socket_def

lemma snapshot_frame [simp]:
  "snapshot (s\<lparr>sockets := x\<rparr>) r = snapshot s r"
  "snapshot (s\<lparr>User := y\<rparr>) r = snapshot s r"
  "snapshot (s\<lparr>Message := z\<rparr>) r = snapshot s r"
  by (simp_all add: snapshot_def)

lemma plain_examples: "plain_key ''alice''" "plain_key ''general''"
  by (simp_all add: plain_key_def inherited_keys_def)

lemma plain_random: "plain_key ''random''"
  by (simp add: plain_key_def inherited_keys_def)

lemma connected_socket:
  "sockets connected 7 = Some \<lparr>username = None, currentRoom = None, rooms = {}\<rparr>"
  by (simp add: model_defs connected_def)

lemma alice_joined_socket:
  "sockets alice_joined 7 =
      Some \<lparr>username = Some ''alice'', currentRoom = Some ''general'', rooms = {''general''}\<rparr>"
  by (simp add: model_defs alice_joined_def)



section \<open>Chat messages and typing indicators\<close>

text \<open>
  C7: for a chatMessage event whose text is not empty after trimming, a failed save emits
  nothing but an error event to the sending socket and stores nothing; a successful save
  stores the document and emits the message (username, text, server timestamp) to the
  whole room.
\<close>

theorem chatMessage_save_or_error:
  assumes "sockets s sid = Some sock" and "trim msg \<noteq> []"
  shows "(save save_ok \<lparr>m_room = r, m_username = u, m_message = msg, m_timestamp = now\<rparr> (Message s) = None
            \<longrightarrow> step (ChatMessage sid r u msg now save_ok) s
                  = (s, [(ToSocket sid, ErrorEv ''Failed to send message'')]))
       \<and> (\<forall>ms. save save_ok \<lparr>m_room = r, m_username = u, m_message = msg, m_timestamp = now\<rparr> (Message s) = Some ms
            \<longrightarrow> step (ChatMessage sid r u msg now save_ok) s
                  = (s\<lparr>Message := ms\<rparr>, [(ToRoom r, MessageEv u msg now)]))"
  using assms by (simp add: on_chatMessage_def)

theorem chatMessage_save_or_error_witness:
  "snd (step (ChatMessage 7 ''general'' ''alice'' ''hi'' 42 False) alice_joined)
      = [(ToSocket 7, ErrorEv ''Failed to send message'')]
   \<and> snd (step (ChatMessage 7 ''general'' ''alice'' ''hi'' 42 True) alice_joined)
      = [(ToRoom ''general'', MessageEv ''alice'' ''hi'' 42)]
   \<and> Message (fst (step (ChatMessage 7 ''general'' ''alice'' ''hi'' 42 True) alice_joined))
      = [\<lparr>m_room = ''general'', m_username = ''alice'', m_message = ''hi'', m_timestamp = 42\<rparr>]"
proof -
  note open1 = alice_joined_socket
  have nonblank: "trim ''hi'' \<noteq> []"
    by (simp add: model_defs)
  have msgs: "Message alice_joined = []"
    by (simp add: model_defs alice_joined_def)
  show ?thesis
    using chatMessage_save_or_error [OF open1 nonblank, of False "''general''" "''alice''" 42]
          chatMessage_save_or_error [OF open1 nonblank, of True "''general''" "''alice''" 42]
    by (simp add: msgs save_def required_ok_def)
qed

text \<open>
  C8: a chatMessage event whose text is empty or only white space is dropped: the whole
  state, the stored messages included, is unchanged and nothing is emitted, whatever the
  database would have answered.
\<close>

theorem chatMessage_blank_dropped:
  assumes "\<forall>c\<in>set msg. js_whitespace c"
  shows "step (ChatMessage sid r u msg now save_ok) s = (s, [])"
proof -
  have "trim msg = []" using assms by (simp add: trim_empty_iff)
  then show ?thesis
    by (simp add: on_chatMessage_def split: option.split)
qed

theorem chatMessage_blank_dropped_witness:
  "step (ChatMessage 7 ''general'' ''alice'' ''   '' 42 True) alice_joined = (alice_joined, [])"
proof -
  have "\<forall>c\<in>set ''   ''. js_whitespace c"
    by (simp add: js_whitespace_def)
  then show ?thesis by (rule chatMessage_blank_dropped)
qed

text \<open>
  C9 as stated fails: a typing event that arrives without a payload makes the handler
  throw a \<^verbatim>\<open>TypeError\<close> at its first line, outside any \<^verbatim>\<open>try\<close>.
\<close>

theorem typing_without_payload_throws:
  "on_typing 7 None connected = Inl TypeError"
  by (simp add: on_typing_def)

text \<open>
  C9, amended: a typing event that carries its payload, from any socket in any state
  (joined or not), leaves the whole state (presence table, sockets, stored documents) as
  it was; the handler does not throw, and its only effect is one userTyping event to the
  room except the sender, never an error event.
\<close>

theorem typing_only_emits:
  assumes "data = Some (r, u, isTyping)"
  shows "on_typing sid data s = Inr (s, [(ToRoomExcept r sid, UserTyping u isTyping)])
       \<and> step (Typing sid r u isTyping) s =
           (s, case sockets s sid of None \<Rightarrow> []
                | Some sock \<Rightarrow> [(ToRoomExcept r sid, UserTyping u isTyping)])"
  using assms by (simp add: on_typing_def split: option.split)

theorem typing_only_emits_witness:
  "on_typing 7 (Some (''general'', ''alice'', True)) connected
      = Inr (connected, [(ToRoomExcept ''general'' 7, UserTyping ''alice'' True)])
   \<and> step (Typing 7 ''general'' ''alice'' True) connected =
     (connected, [(ToRoomExcept ''general'' 7, UserTyping ''alice'' True)])"
  using connected_socket
    typing_only_emits [where data = "Some (''general'', ''alice'', True)" and sid = 7
      and s = connected, OF refl]
  by (simp del: step.simps)

section \<open>The atomic step is the uninterrupted handler\<close>

text \<open>
  When no handler is suspended, letting an event arrive and its calls settle at once gives
  the state and the emits of \<open>step\<close>; hence a sequential schedule from server start ends
  in the state of \<open>run\<close>.
\<close>

lemma exec_append:
  "exec (as @ bs) n =
     (case exec as n of (n1, out1) \<Rightarrow> (case exec bs n1 of (n2, out2) \<Rightarrow> (n2, out1 @ out2)))"
  by (induction as arbitrary: n) (auto split: prod.splits)

lemma uninterrupted_is_step:
  assumes "pending n = []"
  shows "core (fst (exec (uninterrupted e) n)) = fst (step e (core n))
       \<and> pending (fst (exec (uninterrupted e) n)) = []
       \<and> snd (exec (uninterrupted e) n) = snd (step e (core n))"
proof (cases e)
  case (Connection sid)
  then show ?thesis using assms
    by (simp add: uninterrupted_def split: option.splits prod.splits)
next
  case (JoinRoom sid u r a b)
  then show ?thesis using assms
    by (auto simp: uninterrupted_def on_joinRoom_def socket_of_def put_socket_def Let_def snapshot_def
        split: option.splits)
next
  case (ChatMessage sid r u msg now ok)
  then show ?thesis using assms
    by (auto simp: uninterrupted_def on_chatMessage_def split: option.splits)
next
  case (Typing sid r u b)
  then show ?thesis using assms
    by (simp add: uninterrupted_def on_typing_def split: option.splits)
next
  case (Disconnect sid ok)
  then show ?thesis using assms
    by (auto simp: uninterrupted_def on_disconnect_def socket_of_def truthy_def Let_def snapshot_def
        split: option.splits)
next
  case (LeaveRoom sid u r)
  then show ?thesis using assms
    by (simp add: uninterrupted_def on_leaveRoom_def Let_def split: option.splits)
qed


lemma uninterrupted_core:
  "pending n = [] \<Longrightarrow> core (fst (exec (uninterrupted e) n)) = fst (step e (core n))"
  by (simp add: uninterrupted_is_step)

lemma uninterrupted_pending:
  "pending n = [] \<Longrightarrow> pending (fst (exec (uninterrupted e) n)) = []"
  by (simp add: uninterrupted_is_step)

lemma sequential_is_run:
  "pending n = [] \<Longrightarrow>
     core (fst (exec (sequential es) n)) = run es (core n) \<and> pending (fst (exec (sequential es) n)) = []"
proof (induction es arbitrary: n)
  case Nil
  then show ?case by (simp add: sequential_def)
next
  case (Cons e es)
  have split: "fst (exec (sequential (e # es)) n)
      = fst (exec (sequential es) (fst (exec (uninterrupted e) n)))"
    by (simp add: sequential_def exec_append split: prod.splits)
  show ?case
    unfolding split
    using Cons.IH [of "fst (exec (uninterrupted e) n)"] Cons.prems
    by (simp add: uninterrupted_core uninterrupted_pending)
qed

lemma sequential_from_start:
  "core (fst (exec (sequential es) (start us ms))) = run es (boot us ms)"
  using sequential_is_run [of "start us ms" es] by (simp add: start_def)


section \<open>Single events on the presence table\<close>

text \<open>
  C2 as stated fails: when the user upsert succeeds and the history query is rejected,
  the handler has already bound the socket and entered the username in the presence set.
\<close>

theorem joinRoom_find_failure_keeps_changes:
  "snd (step (JoinRoom 7 ''alice'' ''general'' True False) connected)
      = [(ToSocket 7, ErrorEv ''Failed to join room'')]
   \<and> snapshot connected ''general'' = []
   \<and> snapshot (fst (step (JoinRoom 7 ''alice'' ''general'' True False) connected)) ''general''
        = [''alice'']
   \<and> map_option currentRoom (sockets connected 7) = Some None
   \<and> map_option currentRoom
        (sockets (fst (step (JoinRoom 7 ''alice'' ''general'' True False) connected)) 7)
        = Some (Some ''general'')"
  by (simp add: model_defs connected_def)

text \<open>
  C2, amended: a joinRoom event in which a persistence call fails emits exactly one event,
  the error, to the originating socket; when the failing call is the user upsert, the
  whole state is the same after the attempt as before it.
\<close>

theorem joinRoom_failure_reported:
  assumes "sockets s sid = Some sock" and "\<not> (upsert_ok \<and> find_ok)"
  shows "snd (step (JoinRoom sid u r upsert_ok find_ok) s)
           = [(ToSocket sid, ErrorEv ''Failed to join room'')]
       \<and> (\<not> upsert_ok \<longrightarrow> fst (step (JoinRoom sid u r upsert_ok find_ok) s) = s)"
  using assms by (auto simp: on_joinRoom_def Let_def)

theorem joinRoom_failure_reported_witness:
  "step (JoinRoom 7 ''alice'' ''general'' False True) connected
      = (connected, [(ToSocket 7, ErrorEv ''Failed to join room'')])"
proof -
  have failed: "\<not> (False \<and> True)" by simp
  show ?thesis
    using joinRoom_failure_reported [OF connected_socket failed, of "''alice''" "''general''"]
    by (simp add: prod_eq_iff del: step.simps)
qed

text \<open>
  C3 as stated fails: when the write that marks the user offline is rejected, the
  disconnect handler removes nothing and emits nothing, and the username stays in the
  presence set of a socket that is gone.
\<close>

theorem disconnect_failure_skips_cleanup:
  "snapshot alice_joined ''general'' = [''alice'']
   \<and> snapshot (fst (step (Disconnect 7 False) alice_joined)) ''general'' = [''alice'']
   \<and> snd (step (Disconnect 7 False) alice_joined) = []
   \<and> sockets (fst (step (Disconnect 7 False) alice_joined)) 7 = None"
  by (simp add: model_defs alice_joined_def)

text \<open>
  C3, amended: for a disconnect of a socket that had joined a room (non-empty username and
  room), when the write that marks the user offline succeeds, the username is no longer in
  the room's presence set and the resulting onlineUsers snapshot is broadcast to the room,
  followed by the userLeft notice to the room except the sender.
\<close>

theorem disconnect_cleans_up_after_write:
  assumes "sockets s sid = Some sock"
    and "username sock = Some u" and "currentRoom sock = Some r"
    and "u \<noteq> []" and "r \<noteq> []" and "plain_key u" and "plain_key r"
  shows "u \<notin> set (snapshot (fst (step (Disconnect sid True) s)) r)
       \<and> snd (step (Disconnect sid True) s)
           = [(ToRoom r, OnlineUsers (snapshot (fst (step (Disconnect sid True) s)) r)),
              (ToRoomExcept r sid, UserLeft (u @ '' left the room''))]"
  using assms
  by (simp add: on_disconnect_def truthy_def Let_def set_snapshot keys_at_remove_user)

theorem disconnect_cleans_up_after_write_witness:
  "snapshot (fst (step (Disconnect 7 True) alice_joined)) ''general'' = []
   \<and> snd (step (Disconnect 7 True) alice_joined)
       = [(ToRoom ''general'', OnlineUsers []),
          (ToRoomExcept ''general'' 7, UserLeft ''alice left the room'')]"
proof -
  have snap: "snapshot (fst (step (Disconnect 7 True) alice_joined)) ''general'' = []"
    by (simp add: model_defs alice_joined_def)
  have "snd (step (Disconnect 7 True) alice_joined)
       = [(ToRoom ''general'',
           OnlineUsers (snapshot (fst (step (Disconnect 7 True) alice_joined)) ''general'')),
          (ToRoomExcept ''general'' 7, UserLeft (''alice'' @ '' left the room''))]"
    using disconnect_cleans_up_after_write [OF alice_joined_socket _ _ _ _ plain_examples]
    by (simp del: step.simps)
  then show ?thesis
    by (simp add: snap del: step.simps)
qed







section \<open>Effect of each event on bindings and presence\<close>

lemma bound_users_bindings: "bound_users s r = {u. \<exists>sid. (sid, u, r) \<in> bindings s}"
  by (auto simp: bound_users_def bindings_def)

lemma bindings_functional:
  "(sid, u, r) \<in> bindings s \<Longrightarrow> (sid, u', r') \<in> bindings s \<Longrightarrow> u' = u \<and> r' = r"
  by (auto simp: bindings_def)

lemma closed_socket_step:
  "sockets s sid = None \<Longrightarrow> step (JoinRoom sid u r a b) s = (s, [])"
  "sockets s sid = None \<Longrightarrow> step (Disconnect sid ok) s = (s, [])"
  "sockets s sid = None \<Longrightarrow> step (LeaveRoom sid u r) s = (s, [])"
  by simp_all

lemma bindings_join:
  assumes "sockets s sid = Some sock"
  shows "bindings (fst (step (JoinRoom sid u r True find_ok) s))
           = insert (sid, u, r) {b \<in> bindings s. fst b \<noteq> sid}"
  using assms by (auto simp: bindings_def on_joinRoom_def Let_def split: if_splits)

lemma step_join_rejected: "fst (step (JoinRoom sid u r False find_ok) s) = s"
  by (simp add: on_joinRoom_def split: option.split)

lemma presence_join:
  assumes "sockets s sid = Some sock"
  shows "keys_at (activeUsers (fst (step (JoinRoom sid u r True find_ok) s))) r'
           = (if r' = r then insert u (keys_at (activeUsers s) r) else keys_at (activeUsers s) r')"
  using assms by (simp add: on_joinRoom_def Let_def keys_at_join)

lemma bindings_disconnect:
  assumes "sockets s sid = Some sock"
  shows "bindings (fst (step (Disconnect sid update_ok) s)) = {b \<in> bindings s. fst b \<noteq> sid}"
  using assms
  by (auto simp: bindings_def on_disconnect_def Let_def split: if_splits option.splits prod.splits)

lemma presence_disconnect_bound:
  assumes "(sid, u, r) \<in> bindings s" and "u \<noteq> []" and "r \<noteq> []"
  shows "keys_at (activeUsers (fst (step (Disconnect sid True) s))) r'
           = (if r' = r then keys_at (activeUsers s) r - {u} else keys_at (activeUsers s) r')"
  using assms
  by (auto simp: bindings_def on_disconnect_def truthy_def Let_def keys_at_remove_user)

lemma presence_disconnect_unbound:
  assumes "\<forall>u r. (sid, u, r) \<notin> bindings s"
  shows "activeUsers (fst (step (Disconnect sid update_ok) s)) = activeUsers s"
  using assms
  by (auto simp: bindings_def on_disconnect_def truthy_def Let_def split: option.splits)

lemma bindings_leaveRoom: "bindings (fst (step (LeaveRoom sid u r) s)) = bindings s"
  by (auto simp: bindings_def on_leaveRoom_def Let_def split: option.splits if_splits)

lemma presence_leaveRoom:
  "keys_at (activeUsers (fst (step (LeaveRoom sid u r) s))) r'
     = (if sockets s sid \<noteq> None \<and> r' = r then keys_at (activeUsers s) r - {u}
        else keys_at (activeUsers s) r')"
  by (auto simp: on_leaveRoom_def Let_def keys_at_remove_user split: option.splits)

lemma bindings_connection: "bindings (fst (step (Connection sid) s)) = bindings s"
  by (auto simp: bindings_def split: option.splits if_splits)

lemma frame_other_events:
  "activeUsers (fst (step (Connection sid) s)) = activeUsers s"
  "activeUsers (fst (step (ChatMessage sid r u msg now save_ok) s)) = activeUsers s"
  "sockets (fst (step (ChatMessage sid r u msg now save_ok) s)) = sockets s"
  "fst (step (Typing sid r u isTyping) s) = s"
  by (simp_all add: on_chatMessage_def on_typing_def split: option.splits)

lemma bindings_chatMessage: "bindings (fst (step (ChatMessage sid r u msg now save_ok) s)) = bindings s"
  by (simp add: bindings_def frame_other_events del: step.simps)


section \<open>Keys stay distinct\<close>

lemma distinct_assign: "distinct (map fst ob) \<Longrightarrow> distinct (map fst (assign k v ob))"
  by (cases "k \<in> fst ` set ob") (simp_all add: keys_assign_old keys_assign_new)

lemma distinct_delete_prop: "distinct (map fst ob) \<Longrightarrow> distinct (map fst (delete_prop k ob))"
  by (simp add: keys_delete_prop distinct_removeAll)

lemma distinct_remove_user:
  assumes "\<forall>r ob. au r = Some ob \<longrightarrow> distinct (map fst ob)"
  shows "\<forall>r' ob. remove_user r u au r' = Some ob \<longrightarrow> distinct (map fst ob)"
  using assms
  by (auto simp: remove_user_def distinct_delete_prop split: option.splits if_splits)

lemma objs_distinct_step: "objs_distinct s \<Longrightarrow> objs_distinct (fst (step e s))"
proof (cases e)
  case (JoinRoom sid u r a b)
  assume "objs_distinct s"
  then show ?thesis using JoinRoom
    by (auto simp: objs_distinct_def on_joinRoom_def Let_def distinct_assign split: option.splits)
next
  case (Disconnect sid ok)
  assume d: "objs_distinct s"
  then have "\<forall>r' ob. remove_user r u (activeUsers s) r' = Some ob \<longrightarrow> distinct (map fst ob)" for r u
    unfolding objs_distinct_def by (rule distinct_remove_user)
  then show ?thesis using Disconnect d
    by (auto simp: objs_distinct_def on_disconnect_def Let_def split: option.splits prod.splits if_splits)
next
  case (LeaveRoom sid u r)
  assume d: "objs_distinct s"
  then have "\<forall>r' ob. remove_user r u (activeUsers s) r' = Some ob \<longrightarrow> distinct (map fst ob)" for r u
    unfolding objs_distinct_def by (rule distinct_remove_user)
  then show ?thesis using LeaveRoom d
    by (auto simp: objs_distinct_def on_leaveRoom_def Let_def split: option.splits)
qed (auto simp: objs_distinct_def on_chatMessage_def on_typing_def split: option.splits)

lemma objs_distinct_boot: "objs_distinct (boot us ms)"
  by (simp add: objs_distinct_def boot_def)

lemma objs_distinct_frame:
  "objs_distinct (s\<lparr>sockets := x\<rparr>) = objs_distinct s"
  "objs_distinct (s\<lparr>Message := z\<rparr>) = objs_distinct s"
  by (simp_all add: objs_distinct_def)

lemma fst_exec_Cons: "fst (exec (a # as) n) = fst (exec as (fst (act a n)))"
  by (simp add: case_prod_unfold)

lemma objs_distinct_arrive:
  assumes "objs_distinct (core n)"
  shows "objs_distinct (core (fst (arrive e n)))"
proof -
  have stepped: "objs_distinct (fst (step e (core n)))"
    using assms by (rule objs_distinct_step)
  show ?thesis
  proof (cases e)
    case (Connection sid)
    then show ?thesis using stepped by (simp add: case_prod_unfold del: step.simps)
  next
    case (Typing sid r u b)
    then show ?thesis using stepped by (simp add: case_prod_unfold del: step.simps)
  next
    case (LeaveRoom sid u r)
    then show ?thesis using stepped by (simp add: case_prod_unfold del: step.simps)
  next
    case (JoinRoom sid u r a b)
    then show ?thesis using assms by (simp split: option.splits)
  next
    case (ChatMessage sid r u msg now ok)
    then show ?thesis using assms by (simp split: option.splits)
  next
    case (Disconnect sid ok)
    then show ?thesis using assms
      by (simp add: Let_def objs_distinct_frame split: option.splits)
  qed
qed

lemma core_put_socket:
  "activeUsers (core (put_socket sid sock n)) = activeUsers (core n)"
  by (simp add: put_socket_def split: option.splits)

lemma objs_distinct_resume:
  assumes "objs_distinct (core n)"
  shows "objs_distinct (core (fst (resume t n)))"
proof (cases t)
  case (AwaitUpsert sid u r a b)
  then show ?thesis using assms
    by (auto simp: objs_distinct_def Let_def core_put_socket distinct_assign split: option.splits)
next
  case (AwaitFind sid u r b)
  then show ?thesis using assms by simp
next
  case (AwaitSave sid r u msg now ok)
  then show ?thesis using assms by (simp add: objs_distinct_frame split: option.splits)
next
  case (AwaitUpdate sid u0 ok)
  have "\<forall>r' ob. remove_user r u (activeUsers (core n)) r' = Some ob \<longrightarrow> distinct (map fst ob)" for r u
    using assms unfolding objs_distinct_def by (rule distinct_remove_user)
  then show ?thesis using AwaitUpdate assms
    by (auto simp: objs_distinct_def Let_def split: option.splits)
qed

lemma objs_distinct_act: "objs_distinct (core n) \<Longrightarrow> objs_distinct (core (fst (act a n)))"
proof (cases a)
  case (Arrive e)
  assume "objs_distinct (core n)"
  then show ?thesis using Arrive by (simp add: objs_distinct_arrive)
next
  case (Settle k)
  assume d: "objs_distinct (core n)"
  then have "objs_distinct (core (n\<lparr>pending := ps\<rparr>))" for ps by simp
  then show ?thesis using Settle d by (simp add: objs_distinct_resume del: resume.simps)
qed

lemma objs_distinct_exec: "objs_distinct (core n) \<Longrightarrow> objs_distinct (core (fst (exec as n)))"
proof (induction as arbitrary: n)
  case Nil
  then show ?case by simp
next
  case (Cons a as)
  have "objs_distinct (core (fst (act a n)))"
    using Cons.prems by (rule objs_distinct_act)
  then have "objs_distinct (core (fst (exec as (fst (act a n)))))"
    by (rule Cons.IH)
  then show ?case by (simp only: fst_exec_Cons)
qed

lemma objs_distinct_start: "objs_distinct (core (start us ms))"
  by (simp add: start_def objs_distinct_boot)

lemma distinct_snapshot: "objs_distinct s \<Longrightarrow> distinct (snapshot s r)"
  by (auto simp: objs_distinct_def snapshot_def distinct_object_keys split: option.splits)

lemma snapshot_rejoin:
  assumes "u \<in> set (snapshot s r)"
  shows "snapshot (fst (step (JoinRoom sid u r True find_ok) s)) r = snapshot s r"
proof (cases "sockets s sid")
  case None
  then show ?thesis by simp
next
  case (Some sock)
  obtain ob where ob: "activeUsers s r = Some ob" "u \<in> fst ` set ob"
    using assms by (auto simp: set_snapshot keys_at_def split: option.splits)
  then have "object_keys (assign u sid ob) = object_keys ob"
    by (intro object_keys_cong keys_assign_old)
  then show ?thesis using Some ob
    by (simp add: on_joinRoom_def Let_def snapshot_def)
qed

lemma joined_present:
  assumes "sockets s sid = Some sock"
  shows "u \<in> set (snapshot (fst (step (JoinRoom sid u r True find_ok) s)) r)"
  using assms by (simp add: on_joinRoom_def Let_def set_snapshot keys_at_join)

text \<open>
  C10: a second successful joinRoom for the same room and username, from the same or
  another socket, leaves the room's presence snapshot as the first join made it; and in
  every state that any schedule reaches from server start, before and after these joins,
  no snapshot lists a username twice.
\<close>

theorem rejoin_idempotent:
  assumes "s = core (fst (exec as (start us ms)))"
    and "sockets s sid = Some sock"
    and "s1 = fst (step (JoinRoom sid u r True find_ok) s)"
    and "s2 = fst (step (JoinRoom sid' u r True find_ok') s1)"
  shows "snapshot s2 r = snapshot s1 r
       \<and> (\<forall>r'. distinct (snapshot s r') \<and> distinct (snapshot s1 r') \<and> distinct (snapshot s2 r'))"
proof -
  have "u \<in> set (snapshot s1 r)"
    unfolding assms(3) using assms(2) by (rule joined_present)
  then have same: "snapshot s2 r = snapshot s1 r"
    unfolding assms(4) by (rule snapshot_rejoin)
  have d: "objs_distinct s"
    unfolding assms(1) using objs_distinct_start by (rule objs_distinct_exec)
  then have d1: "objs_distinct s1"
    unfolding assms(3) by (rule objs_distinct_step)
  then have d2: "objs_distinct s2"
    unfolding assms(4) by (rule objs_distinct_step)
  show ?thesis
    using same d d1 d2 by (simp add: distinct_snapshot)
qed

theorem rejoin_idempotent_witness:
  "snapshot (fst (step (JoinRoom 7 ''alice'' ''general'' True True) both_connected)) ''general''
      = [''alice'']
   \<and> snapshot (fst (step (JoinRoom 8 ''alice'' ''general'' True True)
        (fst (step (JoinRoom 7 ''alice'' ''general'' True True) both_connected)))) ''general''
      = [''alice'']"
proof -
  have reached: "both_connected
      = core (fst (exec [Arrive (Connection 7), Arrive (Connection 8)] (start Map.empty [])))"
    by (simp add: both_connected_def start_def boot_def)
  have sock: "sockets both_connected 7 = Some \<lparr>username = None, currentRoom = None, rooms = {}\<rparr>"
    by (simp add: model_defs both_connected_def)
  have first: "snapshot (fst (step (JoinRoom 7 ''alice'' ''general'' True True) both_connected))
      ''general'' = [''alice'']"
    by (simp add: model_defs both_connected_def)
  have "snapshot (fst (step (JoinRoom 8 ''alice'' ''general'' True True)
        (fst (step (JoinRoom 7 ''alice'' ''general'' True True) both_connected)))) ''general''
      = snapshot (fst (step (JoinRoom 7 ''alice'' ''general'' True True) both_connected)) ''general''"
    using rejoin_idempotent [OF reached sock refl refl]
    by (simp del: step.simps)
  then show ?thesis
    using first by (simp del: step.simps)
qed

section \<open>Presence against the sockets' bindings\<close>

lemma presence_exactI:
  assumes "\<And>r. keys_at (activeUsers s) r = {u. \<exists>sid. (sid, u, r) \<in> bindings s}"
    and "\<And>a b u r. (a, u, r) \<in> bindings s \<Longrightarrow> (b, u, r) \<in> bindings s \<Longrightarrow> b = a"
    and "\<And>a u r. (a, u, r) \<in> bindings s \<Longrightarrow> u \<noteq> [] \<and> r \<noteq> []"
  shows "presence_exact s"
  unfolding presence_exact_def using assms by blast

lemma presence_exact_keys:
  "presence_exact s \<Longrightarrow> keys_at (activeUsers s) r = {u. \<exists>sid. (sid, u, r) \<in> bindings s}"
  by (simp add: presence_exact_def)

lemma presence_exact_unique:
  "presence_exact s \<Longrightarrow> (a, u, r) \<in> bindings s \<Longrightarrow> (b, u, r) \<in> bindings s \<Longrightarrow> b = a"
  unfolding presence_exact_def by blast

lemma presence_exact_truthy:
  "presence_exact s \<Longrightarrow> (a, u, r) \<in> bindings s \<Longrightarrow> u \<noteq> [] \<and> r \<noteq> []"
  unfolding presence_exact_def by blast

lemma presence_exact_join:
  assumes inv: "presence_exact s" and ok: "orderly s (JoinRoom sid u r upsert_ok find_ok)"
  shows "presence_exact (fst (step (JoinRoom sid u r upsert_ok find_ok) s))"
proof (cases "sockets s sid")
  case None
  then show ?thesis using inv by (simp add: closed_socket_step)
next
  case (Some sock)
  show ?thesis
  proof (cases upsert_ok)
    case False
    then show ?thesis using inv by (simp add: step_join_rejected del: step.simps)
  next
    case True
    note K = presence_exact_keys [OF inv]
    note U = presence_exact_unique [OF inv]
    note N = presence_exact_truthy [OF inv]
    have own: "\<And>u' r'. (sid, u', r') \<in> bindings s \<Longrightarrow> u' = u \<and> r' = r"
      using ok Some True by (auto simp: bindings_def)
    have others: "\<And>sid'. (sid', u, r) \<in> bindings s \<Longrightarrow> sid' = sid"
      using ok Some True by (auto simp: bindings_def)
    have ne: "u \<noteq> []" "r \<noteq> []" using ok Some True by simp_all
    note B = bindings_join [OF Some, of u r find_ok]
    note P = presence_join [OF Some, of u r find_ok]
    have "presence_exact (fst (step (JoinRoom sid u r True find_ok) s))"
    proof (rule presence_exactI)
      fix r'
      show "keys_at (activeUsers (fst (step (JoinRoom sid u r True find_ok) s))) r'
               = {u'. \<exists>sid'. (sid', u', r') \<in> bindings (fst (step (JoinRoom sid u r True find_ok) s))}"
        unfolding B P K using own by auto
    next
      fix a b u' r'
      assume "(a, u', r') \<in> bindings (fst (step (JoinRoom sid u r True find_ok) s))"
        and "(b, u', r') \<in> bindings (fst (step (JoinRoom sid u r True find_ok) s))"
      then have "(a = sid \<and> u' = u \<and> r' = r) \<or> ((a, u', r') \<in> bindings s \<and> a \<noteq> sid)"
        and "(b = sid \<and> u' = u \<and> r' = r) \<or> ((b, u', r') \<in> bindings s \<and> b \<noteq> sid)"
        unfolding B by auto
      then show "b = a" using U others by blast
    next
      fix a u' r'
      assume "(a, u', r') \<in> bindings (fst (step (JoinRoom sid u r True find_ok) s))"
      then have "(u' = u \<and> r' = r) \<or> (a, u', r') \<in> bindings s"
        unfolding B by auto
      then show "u' \<noteq> [] \<and> r' \<noteq> []" using N ne by blast
    qed
    then show ?thesis using True by (simp del: step.simps)
  qed
qed

lemma remaining_users:
  assumes b: "(sid, u, r) \<in> B"
    and own: "\<And>u' r'. (sid, u', r') \<in> B \<Longrightarrow> u' = u \<and> r' = r"
    and others: "\<And>sid'. (sid', u, r) \<in> B \<Longrightarrow> sid' = sid"
  shows "{u'. \<exists>sid'. (sid', u', r') \<in> {b \<in> B. fst b \<noteq> sid}}
           = (if r' = r then {u'. \<exists>sid'. (sid', u', r) \<in> B} - {u}
              else {u'. \<exists>sid'. (sid', u', r') \<in> B})"
proof (cases "r' = r")
  case True
  have "(\<exists>sid'. (sid', u', r) \<in> B \<and> sid' \<noteq> sid) \<longleftrightarrow> (\<exists>sid'. (sid', u', r) \<in> B) \<and> u' \<noteq> u" for u'
    using own others by blast
  then show ?thesis using True by auto
next
  case False
  have "(\<exists>sid'. (sid', u', r') \<in> B \<and> sid' \<noteq> sid) \<longleftrightarrow> (\<exists>sid'. (sid', u', r') \<in> B)" for u'
    using own False by blast
  then show ?thesis using False by auto
qed

lemma presence_exact_disconnect:
  assumes inv: "presence_exact s" and ok: "orderly s (Disconnect sid update_ok)"
  shows "presence_exact (fst (step (Disconnect sid update_ok) s))"
proof (cases "sockets s sid")
  case None
  then show ?thesis using inv by (simp add: closed_socket_step)
next
  case (Some sock)
  note K = presence_exact_keys [OF inv]
  note U = presence_exact_unique [OF inv]
  note N = presence_exact_truthy [OF inv]
  note B = bindings_disconnect [OF Some, of update_ok]
  have sub: "\<And>a u r. (a, u, r) \<in> bindings (fst (step (Disconnect sid update_ok) s))
      \<Longrightarrow> (a, u, r) \<in> bindings s"
    unfolding B by simp
  have keys: "keys_at (activeUsers (fst (step (Disconnect sid update_ok) s))) r'
               = {u'. \<exists>sid'. (sid', u', r') \<in> bindings (fst (step (Disconnect sid update_ok) s))}" for r'
  proof (cases "\<exists>u r. (sid, u, r) \<in> bindings s")
    case False
    then have P: "activeUsers (fst (step (Disconnect sid update_ok) s)) = activeUsers s"
      by (simp add: presence_disconnect_unbound del: step.simps)
    have same: "{b \<in> bindings s. fst b \<noteq> sid} = bindings s"
      using False by auto
    show ?thesis
      unfolding B P same by (rule K)
  next
    case True
    then obtain u r where b: "(sid, u, r) \<in> bindings s" by blast
    then have upd: "update_ok" using ok Some by (auto simp: bindings_def)
    have ne: "u \<noteq> []" "r \<noteq> []" using N [OF b] by simp_all
    have P: "keys_at (activeUsers (fst (step (Disconnect sid update_ok) s))) r'
           = (if r' = r then keys_at (activeUsers s) r - {u} else keys_at (activeUsers s) r')"
      using presence_disconnect_bound [OF b ne] upd by simp
    have own: "\<And>u' r'. (sid, u', r') \<in> bindings s \<Longrightarrow> u' = u \<and> r' = r"
      using b bindings_functional by blast
    have others: "\<And>sid'. (sid', u, r) \<in> bindings s \<Longrightarrow> sid' = sid"
      using U [OF b] by blast
    show ?thesis
      unfolding B P K by (rule remaining_users [OF b own others, symmetric])
  qed
  show ?thesis
  proof (rule presence_exactI)
    fix r'
    show "keys_at (activeUsers (fst (step (Disconnect sid update_ok) s))) r'
               = {u'. \<exists>sid'. (sid', u', r') \<in> bindings (fst (step (Disconnect sid update_ok) s))}"
      by (rule keys)
  next
    fix a b u' r'
    assume "(a, u', r') \<in> bindings (fst (step (Disconnect sid update_ok) s))"
      and "(b, u', r') \<in> bindings (fst (step (Disconnect sid update_ok) s))"
    then have "(a, u', r') \<in> bindings s" and "(b, u', r') \<in> bindings s"
      by (simp_all only: sub)
    then show "b = a" by (rule U)
  next
    fix a u' r'
    assume "(a, u', r') \<in> bindings (fst (step (Disconnect sid update_ok) s))"
    then have "(a, u', r') \<in> bindings s" by (rule sub)
    then show "u' \<noteq> [] \<and> r' \<noteq> []" by (rule N)
  qed
qed

lemma presence_exact_leaveRoom:
  assumes inv: "presence_exact s" and ok: "orderly s (LeaveRoom sid u r)"
  shows "presence_exact (fst (step (LeaveRoom sid u r) s))"
proof -
  have "u \<notin> keys_at (activeUsers s) r"
    using inv ok by (simp add: presence_exact_def bound_users_bindings)
  then have "keys_at (activeUsers (fst (step (LeaveRoom sid u r) s))) r' = keys_at (activeUsers s) r'" for r'
    by (simp add: presence_leaveRoom del: step.simps)
  then show ?thesis
    using inv by (simp add: presence_exact_def bindings_leaveRoom del: step.simps)
qed

lemma presence_exact_step:
  assumes "presence_exact s" and "orderly s e"
  shows "presence_exact (fst (step e s))"
proof (cases e)
  case (Connection sid)
  then show ?thesis using assms(1)
    by (simp add: presence_exact_def bindings_connection frame_other_events del: step.simps)
next
  case (JoinRoom sid u r a b)
  then show ?thesis using assms by (simp add: presence_exact_join del: step.simps)
next
  case (ChatMessage sid r u msg now ok)
  then show ?thesis using assms(1)
    by (simp add: presence_exact_def bindings_chatMessage frame_other_events del: step.simps)
next
  case (Typing sid r u b)
  then show ?thesis using assms(1) by (simp add: frame_other_events del: step.simps)
next
  case (Disconnect sid ok)
  then show ?thesis using assms by (simp add: presence_exact_disconnect del: step.simps)
next
  case (LeaveRoom sid u r)
  then show ?thesis using assms by (simp add: presence_exact_leaveRoom del: step.simps)
qed

lemma presence_exact_run:
  "presence_exact s \<Longrightarrow> orderly_run s es \<Longrightarrow> presence_exact (run es s)"
  by (induction es arbitrary: s) (simp_all add: presence_exact_step del: step.simps)

lemma presence_exact_boot: "presence_exact (boot us ms)"
  by (simp add: presence_exact_def boot_def bindings_def keys_at_def)

lemma two_users_orderly: "orderly_run (boot Map.empty []) two_users"
  by (simp add: model_defs two_users_def bound_users_def)

lemma two_users_snapshot: "snapshot (run two_users (boot Map.empty [])) ''general'' = [''bob'']"
  by (simp add: model_defs two_users_def)

text \<open>
  C1 as stated fails in both directions. On five runs in which every handler finishes
  before the next event:
  \<^item> a socket that joins a second room leaves its username behind in the first room's
    presence set (a ghost);
  \<^item> after leaveRoom the socket still has its \<^verbatim>\<open>currentRoom\<close> while the username is gone
    from the presence set (an omission);
  \<^item> when two sockets join one room under one username and one of them disconnects, the
    username is gone although the other socket is still bound (an omission);
  \<^item> when the write of a disconnect is rejected, or the username is the empty string, the
    disconnect removes nothing and the username of the closed socket stays (a ghost).
  And on two schedules whose events, in their order of arrival, are orderly:
  \<^item> a join whose upsert settles after the disconnect of its socket enters the username of
    a closed socket (a ghost);
  \<^item> a disconnect whose update settles after another socket has joined under the same
    username removes that socket's entry (an omission).
\<close>

theorem presence_ghost_and_omission:
  "''alice'' \<in> set (snapshot alice_moved ''general'')
   \<and> ''alice'' \<notin> bound_users alice_moved ''general''
   \<and> ''alice'' \<notin> set (snapshot alice_left ''general'')
   \<and> ''alice'' \<in> bound_users alice_left ''general''
   \<and> ''alice'' \<notin> set (snapshot alice_twice ''general'')
   \<and> ''alice'' \<in> bound_users alice_twice ''general''
   \<and> ''alice'' \<in> set (snapshot alice_dropped ''general'')
   \<and> ''alice'' \<notin> bound_users alice_dropped ''general''
   \<and> [] \<in> set (snapshot nameless_gone ''general'')
   \<and> [] \<notin> bound_users nameless_gone ''general''
   \<and> orderly_run (boot Map.empty [])
        [Connection 7, JoinRoom 7 ''alice'' ''general'' True True, Disconnect 7 True]
   \<and> ''alice'' \<in> set (snapshot (core (fst (exec late_join (start Map.empty [])))) ''general'')
   \<and> ''alice'' \<notin> bound_users (core (fst (exec late_join (start Map.empty [])))) ''general''
   \<and> orderly_run (boot Map.empty [])
        [Connection 7, Connection 8, JoinRoom 7 ''alice'' ''general'' True True,
         Disconnect 7 True, JoinRoom 8 ''alice'' ''general'' True True]
   \<and> ''alice'' \<notin> set (snapshot (core (fst (exec late_cleanup (start Map.empty [])))) ''general'')
   \<and> ''alice'' \<in> bound_users (core (fst (exec late_cleanup (start Map.empty [])))) ''general''"
  by (simp add: exec_defs bound_users_def alice_joined_def alice_moved_def alice_left_def
      alice_twice_def alice_dropped_def nameless_gone_def late_join_def late_cleanup_def)

text \<open>
  C1, amended: after every sequential schedule, from server start, of an orderly sequence
  of events, the presence snapshot of each room is exactly the set of usernames of the
  open sockets whose \<^verbatim>\<open>currentRoom\<close> is that room. Sequential means that every handler
  finishes before the next event is handled. Orderly means: usernames and rooms are plain
  keys; a socket joins only while it has no room (or repeats its binding), with a
  non-empty username and room that no other open socket is bound to; the write of every
  disconnect of a joined socket succeeds; and a leaveRoom names only a username that no
  open socket binds to the room.
\<close>

theorem presence_exact_on_orderly_runs:
  assumes "orderly_run (boot us ms) es"
  shows "set (snapshot (core (fst (exec (sequential es) (start us ms)))) r)
           = bound_users (core (fst (exec (sequential es) (start us ms)))) r"
proof -
  have "presence_exact (run es (boot us ms))"
    using presence_exact_boot assms by (rule presence_exact_run)
  then show ?thesis
    by (simp add: presence_exact_def set_snapshot bound_users_bindings sequential_from_start)
qed

theorem presence_exact_on_orderly_runs_witness:
  "snapshot (core (fst (exec (sequential two_users) (start Map.empty [])))) ''general'' = [''bob'']
   \<and> bound_users (core (fst (exec (sequential two_users) (start Map.empty [])))) ''general''
        = {''bob''}"
  using presence_exact_on_orderly_runs [OF two_users_orderly, of "''general''"]
  by (simp add: two_users_snapshot sequential_from_start)

section \<open>One room per username\<close>

lemma one_roomI:
  assumes "\<And>u r. u \<in> keys_at (activeUsers s) r \<Longrightarrow> \<exists>sid. (sid, u, r) \<in> bindings s"
    and "\<And>a b u r r'. (a, u, r) \<in> bindings s \<Longrightarrow> (b, u, r') \<in> bindings s \<Longrightarrow> b = a"
    and "\<And>a u r. (a, u, r) \<in> bindings s \<Longrightarrow> u \<noteq> [] \<and> r \<noteq> []"
  shows "one_room s"
  unfolding one_room_def using assms by blast

lemma one_room_bound:
  "one_room s \<Longrightarrow> u \<in> keys_at (activeUsers s) r \<Longrightarrow> \<exists>sid. (sid, u, r) \<in> bindings s"
  unfolding one_room_def by blast

lemma one_room_unique:
  "one_room s \<Longrightarrow> (a, u, r) \<in> bindings s \<Longrightarrow> (b, u, r') \<in> bindings s \<Longrightarrow> b = a"
  unfolding one_room_def by blast

lemma one_room_truthy:
  "one_room s \<Longrightarrow> (a, u, r) \<in> bindings s \<Longrightarrow> u \<noteq> [] \<and> r \<noteq> []"
  unfolding one_room_def by blast

lemma one_room_join:
  assumes inv: "one_room s" and ok: "exclusive s (JoinRoom sid u r upsert_ok find_ok)"
  shows "one_room (fst (step (JoinRoom sid u r upsert_ok find_ok) s))"
proof (cases "sockets s sid")
  case None
  then show ?thesis using inv by (simp add: closed_socket_step)
next
  case (Some sock)
  show ?thesis
  proof (cases upsert_ok)
    case False
    then show ?thesis using inv by (simp add: step_join_rejected del: step.simps)
  next
    case True
    note G = one_room_bound [OF inv]
    note U = one_room_unique [OF inv]
    note N = one_room_truthy [OF inv]
    have own: "\<And>u' r'. (sid, u', r') \<in> bindings s \<Longrightarrow> u' = u \<and> r' = r"
      using ok Some True by (auto simp: bindings_def)
    have others: "\<And>sid' r'. (sid', u, r') \<in> bindings s \<Longrightarrow> sid' = sid"
      using ok Some True by (auto simp: bindings_def)
    have ne: "u \<noteq> []" "r \<noteq> []" using ok Some True by simp_all
    note B = bindings_join [OF Some, of u r find_ok]
    note P = presence_join [OF Some, of u r find_ok]
    have "one_room (fst (step (JoinRoom sid u r True find_ok) s))"
    proof (rule one_roomI)
      fix u' r'
      assume "u' \<in> keys_at (activeUsers (fst (step (JoinRoom sid u r True find_ok) s))) r'"
      then have "(u' = u \<and> r' = r) \<or> u' \<in> keys_at (activeUsers s) r'"
        unfolding P by (auto split: if_splits)
      then have "(u' = u \<and> r' = r) \<or> (\<exists>a. (a, u', r') \<in> bindings s)"
        using G by blast
      then have "(u' = u \<and> r' = r) \<or> (\<exists>a. (a, u', r') \<in> bindings s \<and> a \<noteq> sid)"
        using own by blast
      then show "\<exists>a. (a, u', r') \<in> bindings (fst (step (JoinRoom sid u r True find_ok) s))"
        unfolding B by auto
    next
      fix a b u' r1 r2
      assume "(a, u', r1) \<in> bindings (fst (step (JoinRoom sid u r True find_ok) s))"
        and "(b, u', r2) \<in> bindings (fst (step (JoinRoom sid u r True find_ok) s))"
      then have "(a = sid \<and> u' = u \<and> r1 = r) \<or> ((a, u', r1) \<in> bindings s \<and> a \<noteq> sid)"
        and "(b = sid \<and> u' = u \<and> r2 = r) \<or> ((b, u', r2) \<in> bindings s \<and> b \<noteq> sid)"
        unfolding B by auto
      then show "b = a" using U others by blast
    next
      fix a u' r'
      assume "(a, u', r') \<in> bindings (fst (step (JoinRoom sid u r True find_ok) s))"
      then have "(u' = u \<and> r' = r) \<or> (a, u', r') \<in> bindings s"
        unfolding B by auto
      then show "u' \<noteq> [] \<and> r' \<noteq> []" using N ne by blast
    qed
    then show ?thesis using True by (simp del: step.simps)
  qed
qed

lemma one_room_disconnect:
  assumes inv: "one_room s" and ok: "exclusive s (Disconnect sid update_ok)"
  shows "one_room (fst (step (Disconnect sid update_ok) s))"
proof (cases "sockets s sid")
  case None
  then show ?thesis using inv by (simp add: closed_socket_step)
next
  case (Some sock)
  note G = one_room_bound [OF inv]
  note U = one_room_unique [OF inv]
  note N = one_room_truthy [OF inv]
  note B = bindings_disconnect [OF Some, of update_ok]
  have sub: "\<And>a u r. (a, u, r) \<in> bindings (fst (step (Disconnect sid update_ok) s))
      \<Longrightarrow> (a, u, r) \<in> bindings s"
    unfolding B by simp
  have bound: "\<exists>a. (a, u', r') \<in> bindings (fst (step (Disconnect sid update_ok) s))"
    if present: "u' \<in> keys_at (activeUsers (fst (step (Disconnect sid update_ok) s))) r'" for u' r'
  proof (cases "\<exists>u r. (sid, u, r) \<in> bindings s")
    case False
    then have P: "activeUsers (fst (step (Disconnect sid update_ok) s)) = activeUsers s"
      by (simp add: presence_disconnect_unbound del: step.simps)
    have same: "{b \<in> bindings s. fst b \<noteq> sid} = bindings s"
      using False by auto
    show ?thesis
      using present unfolding B P same by (rule G)
  next
    case True
    then obtain u r where b: "(sid, u, r) \<in> bindings s" by blast
    then have upd: "update_ok" using ok Some by (auto simp: bindings_def)
    have ne: "u \<noteq> []" "r \<noteq> []" using N [OF b] by simp_all
    have P: "keys_at (activeUsers (fst (step (Disconnect sid update_ok) s))) r'
           = (if r' = r then keys_at (activeUsers s) r - {u} else keys_at (activeUsers s) r')"
      using presence_disconnect_bound [OF b ne] upd by simp
    have own: "\<And>u' r'. (sid, u', r') \<in> bindings s \<Longrightarrow> u' = u \<and> r' = r"
      using b bindings_functional by blast
    have "u' \<in> keys_at (activeUsers s) r' \<and> \<not> (u' = u \<and> r' = r)"
      using present unfolding P by (auto split: if_splits)
    then have "\<exists>a. (a, u', r') \<in> bindings s \<and> a \<noteq> sid"
      using G own by blast
    then show ?thesis unfolding B by auto
  qed
  show ?thesis
  proof (rule one_roomI)
    fix u' r'
    assume "u' \<in> keys_at (activeUsers (fst (step (Disconnect sid update_ok) s))) r'"
    then show "\<exists>a. (a, u', r') \<in> bindings (fst (step (Disconnect sid update_ok) s))"
      by (rule bound)
  next
    fix a b u' r1 r2
    assume "(a, u', r1) \<in> bindings (fst (step (Disconnect sid update_ok) s))"
      and "(b, u', r2) \<in> bindings (fst (step (Disconnect sid update_ok) s))"
    then have "(a, u', r1) \<in> bindings s" and "(b, u', r2) \<in> bindings s"
      by (simp_all only: sub)
    then show "b = a" by (rule U)
  next
    fix a u' r'
    assume "(a, u', r') \<in> bindings (fst (step (Disconnect sid update_ok) s))"
    then have "(a, u', r') \<in> bindings s" by (rule sub)
    then show "u' \<noteq> [] \<and> r' \<noteq> []" by (rule N)
  qed
qed

lemma one_room_leaveRoom:
  assumes inv: "one_room s"
  shows "one_room (fst (step (LeaveRoom sid u r) s))"
proof (rule one_roomI)
  fix u' r'
  assume "u' \<in> keys_at (activeUsers (fst (step (LeaveRoom sid u r) s))) r'"
  then have "u' \<in> keys_at (activeUsers s) r'"
    unfolding presence_leaveRoom by (auto split: if_splits)
  then show "\<exists>a. (a, u', r') \<in> bindings (fst (step (LeaveRoom sid u r) s))"
    unfolding bindings_leaveRoom by (rule one_room_bound [OF inv])
next
  fix a b u' r1 r2
  assume "(a, u', r1) \<in> bindings (fst (step (LeaveRoom sid u r) s))"
    and "(b, u', r2) \<in> bindings (fst (step (LeaveRoom sid u r) s))"
  then show "b = a"
    unfolding bindings_leaveRoom by (rule one_room_unique [OF inv])
next
  fix a u' r'
  assume "(a, u', r') \<in> bindings (fst (step (LeaveRoom sid u r) s))"
  then show "u' \<noteq> [] \<and> r' \<noteq> []"
    unfolding bindings_leaveRoom by (rule one_room_truthy [OF inv])
qed

lemma one_room_step:
  assumes "one_room s" and "exclusive s e"
  shows "one_room (fst (step e s))"
proof (cases e)
  case (Connection sid)
  then show ?thesis using assms(1)
    by (simp add: one_room_def bindings_connection frame_other_events del: step.simps)
next
  case (JoinRoom sid u r a b)
  then show ?thesis using assms by (simp add: one_room_join del: step.simps)
next
  case (ChatMessage sid r u msg now ok)
  then show ?thesis using assms(1)
    by (simp add: one_room_def bindings_chatMessage frame_other_events del: step.simps)
next
  case (Typing sid r u b)
  then show ?thesis using assms(1) by (simp add: frame_other_events del: step.simps)
next
  case (Disconnect sid ok)
  then show ?thesis using assms by (simp add: one_room_disconnect del: step.simps)
next
  case (LeaveRoom sid u r)
  then show ?thesis using assms by (simp add: one_room_leaveRoom del: step.simps)
qed

lemma one_room_run:
  "one_room s \<Longrightarrow> exclusive_run s es \<Longrightarrow> one_room (run es s)"
  by (induction es arbitrary: s) (simp_all add: one_room_step del: step.simps)

lemma one_room_boot: "one_room (boot us ms)"
  by (simp add: one_room_def boot_def bindings_def keys_at_def)

lemma two_rooms_exclusive: "exclusive_run (boot Map.empty []) two_rooms"
  by (simp add: model_defs two_rooms_def)

lemma two_rooms_snapshot: "snapshot (run two_rooms (boot Map.empty [])) ''general'' = [''alice'']"
  by (simp add: model_defs two_rooms_def)

lemma join_twice_in_both:
  assumes "sockets s sid = Some sock"
  shows "u \<in> set (snapshot (fst (step (JoinRoom sid u b True g) (fst (step (JoinRoom sid u a True f) s)))) a)
       \<and> u \<in> set (snapshot (fst (step (JoinRoom sid u b True g) (fst (step (JoinRoom sid u a True f) s)))) b)"
proof -
  let ?s1 = "fst (step (JoinRoom sid u a True f) s)"
  have open1: "sockets ?s1 sid = Some (sock\<lparr>rooms := insert a (rooms sock), username := Some u, currentRoom := Some a\<rparr>)"
    using assms by (simp add: on_joinRoom_def Let_def)
  have "u \<in> keys_at (activeUsers ?s1) a"
    using assms by (simp add: presence_join del: step.simps)
  then show ?thesis
    by (simp add: set_snapshot presence_join [OF open1] del: step.simps)
qed

text \<open>
  C4 as stated fails: a socket that joins \<^verbatim>\<open>general\<close> and then \<^verbatim>\<open>random\<close> has its username
  in the presence sets of both rooms, since joinRoom never removes an entry. The same
  holds when two sockets join the two rooms under one username, and when a username that
  a disconnect left behind (its write was rejected, or the username is the empty string)
  joins another room from a new socket. It also holds on a schedule whose events are
  exclusive in their order of arrival, when the upsert of a join settles after the
  disconnect of its socket and the username then joins another room from a new socket.
\<close>

theorem username_in_two_rooms:
  "''general'' \<noteq> ''random''
   \<and> ''alice'' \<in> set (snapshot alice_moved ''general'')
   \<and> ''alice'' \<in> set (snapshot alice_moved ''random'')
   \<and> ''alice'' \<in> set (snapshot alice_on_two_sockets ''general'')
   \<and> ''alice'' \<in> set (snapshot alice_on_two_sockets ''random'')
   \<and> ''alice'' \<in> set (snapshot alice_back ''general'')
   \<and> ''alice'' \<in> set (snapshot alice_back ''random'')
   \<and> [] \<in> set (snapshot nameless_back ''general'')
   \<and> [] \<in> set (snapshot nameless_back ''random'')
   \<and> exclusive_run (boot Map.empty [])
        [Connection 7, JoinRoom 7 ''alice'' ''general'' True True, Disconnect 7 True,
         Connection 8, JoinRoom 8 ''alice'' ''random'' True True]
   \<and> ''alice'' \<in> set (snapshot (core (fst (exec late_join_then_other_room (start Map.empty []))))
        ''general'')
   \<and> ''alice'' \<in> set (snapshot (core (fst (exec late_join_then_other_room (start Map.empty []))))
        ''random'')"
  by (simp add: exec_defs alice_joined_def alice_moved_def alice_on_two_sockets_def
      alice_dropped_def alice_back_def nameless_gone_def nameless_back_def
      late_join_def late_join_then_other_room_def)

text \<open>
  C4, amended: after every sequential schedule, from server start, of an exclusive
  sequence of events, a username is in the presence set of at most one room. Sequential
  means that every handler finishes before the next event is handled. Exclusive means:
  usernames and rooms are plain keys; a socket joins only while it has no room (or repeats
  its binding), with a non-empty username that no other open socket carries and a
  non-empty room; and the write of every disconnect of a joined socket succeeds. And in
  any state, an open socket that joins room \<open>a\<close> and then room \<open>b\<close> under a username, both
  upserts succeeding and the names plain keys, leaves the username in the presence sets
  of both rooms.
\<close>

theorem one_room_on_exclusive_runs:
  assumes "exclusive_run (boot us ms) es"
  shows "(\<forall>u r r'. u \<in> set (snapshot (core (fst (exec (sequential es) (start us ms)))) r)
              \<and> u \<in> set (snapshot (core (fst (exec (sequential es) (start us ms)))) r') \<longrightarrow> r' = r)
       \<and> (\<forall>(s::server) sid sock u a b f g. sockets s sid = Some sock \<and> plain_key u \<and> plain_key a \<and> plain_key b \<longrightarrow>
             u \<in> set (snapshot (fst (step (JoinRoom sid u b True g)
                                  (fst (step (JoinRoom sid u a True f) s)))) a)
           \<and> u \<in> set (snapshot (fst (step (JoinRoom sid u b True g)
                                  (fst (step (JoinRoom sid u a True f) s)))) b))"
proof (intro conjI allI impI)
  fix u r r'
  assume both: "u \<in> set (snapshot (core (fst (exec (sequential es) (start us ms)))) r)
            \<and> u \<in> set (snapshot (core (fst (exec (sequential es) (start us ms)))) r')"
  have inv: "one_room (run es (boot us ms))"
    using one_room_boot assms by (rule one_room_run)
  obtain x where x: "(x, u, r) \<in> bindings (run es (boot us ms))"
    using one_room_bound [OF inv, of u r] both
    by (auto simp: set_snapshot sequential_from_start)
  obtain y where y: "(y, u, r') \<in> bindings (run es (boot us ms))"
    using one_room_bound [OF inv, of u r'] both
    by (auto simp: set_snapshot sequential_from_start)
  have "y = x" using inv x y by (rule one_room_unique)
  then show "r' = r" using x y bindings_functional by blast
next
  fix s :: server and sid sock u a b f g
  assume "sockets s sid = Some sock \<and> plain_key u \<and> plain_key a \<and> plain_key b"
  then have "sockets s sid = Some sock" by simp
  then show "u \<in> set (snapshot (fst (step (JoinRoom sid u b True g)
                                  (fst (step (JoinRoom sid u a True f) s)))) a)"
    and "u \<in> set (snapshot (fst (step (JoinRoom sid u b True g)
                                  (fst (step (JoinRoom sid u a True f) s)))) b)"
    using join_twice_in_both by blast+
qed

theorem one_room_on_exclusive_runs_witness:
  "snapshot (core (fst (exec (sequential two_rooms) (start Map.empty [])))) ''general'' = [''alice'']
   \<and> ''alice'' \<notin> set (snapshot (core (fst (exec (sequential two_rooms) (start Map.empty [])))) ''random'')
   \<and> ''alice'' \<in> set (snapshot (fst (step (JoinRoom 7 ''alice'' ''random'' True True)
                                  (fst (step (JoinRoom 7 ''alice'' ''general'' True True) connected)))) ''general'')
   \<and> ''alice'' \<in> set (snapshot (fst (step (JoinRoom 7 ''alice'' ''random'' True True)
                                  (fst (step (JoinRoom 7 ''alice'' ''general'' True True) connected)))) ''random'')"
proof -
  note inst = one_room_on_exclusive_runs [OF two_rooms_exclusive]
  note one = inst [THEN conjunct1, rule_format, of "''alice''" "''general''" "''random''"]
  note two = inst [THEN conjunct2, rule_format, of connected 7 _ "''alice''" "''general''" "''random''" True True]
  have snap: "snapshot (core (fst (exec (sequential two_rooms) (start Map.empty [])))) ''general'' = [''alice'']"
    by (simp add: sequential_from_start two_rooms_snapshot)
  have "''alice'' \<notin> set (snapshot (core (fst (exec (sequential two_rooms) (start Map.empty [])))) ''random'')"
  proof
    assume "''alice'' \<in> set (snapshot (core (fst (exec (sequential two_rooms) (start Map.empty [])))) ''random'')"
    then have "''random'' = ''general''"
      using one by (simp add: snap)
    then show False by simp
  qed
  moreover have "''alice'' \<in> set (snapshot (fst (step (JoinRoom 7 ''alice'' ''random'' True True)
                                  (fst (step (JoinRoom 7 ''alice'' ''general'' True True) connected)))) ''general'')
   \<and> ''alice'' \<in> set (snapshot (fst (step (JoinRoom 7 ''alice'' ''random'' True True)
                                  (fst (step (JoinRoom 7 ''alice'' ''general'' True True) connected)))) ''random'')"
    using two connected_socket plain_examples plain_random by (simp del: step.simps)
  ultimately show ?thesis using snap by (simp del: step.simps)
qed

end
